theory Spec2Isabelle
  imports Complex_Main "HOL-Library.Word" "HOL-Library.Log_Nat"
begin

section \<open>Data model\<close>

text \<open>
  The program is the final snapshot of the motion game (\<open>src/unnamed/part_002\<close>).
  Its module-level variables become one record, its functions become functions on
  that record. Pixel channels are the bytes of an \<open>ImageData\<close> buffer
  (\<open>Uint8ClampedArray\<close>). JavaScript numbers are doubles; here a number is the
  rational it denotes. Button coordinates and pixel indices are whole or half numbers
  far below \<open>2^53\<close>, where double arithmetic is exact. The two sums of a clock reading
  and a constant and the product with \<open>Math.random()\<close> are rounded to the nearest
  double, as the code's \<open>+\<close> and \<open>*\<close> round them.
\<close>

type_synonym byte = "8 word"

record ImageData =
  width :: nat
  height :: nat
  data :: "byte list"

datatype Side = Top | Left | Right

datatype Action = Capture | Grayscale | Save

text \<open>
  A button coordinate is \<open>number | (() => number)\<close>; the thunks of the source read
  \<open>canvas.width\<close>, so a thunk takes the canvas width.
\<close>

datatype coord = Num rat | Thunk "nat \<Rightarrow> rat"

text \<open>The fields \<open>w h x y\<close> of the source's \<open>Button\<close> carry the prefix \<open>btn_\<close>.\<close>

record Button =
  action :: Action
  side :: Side
  btn_w :: nat
  btn_h :: nat
  btn_x :: coord
  btn_y :: coord

datatype FlashColor = success | fail

record game =
  previousFrame :: "ImageData option"
  hp :: int
  gameOver :: bool
  roundActive :: bool
  roundEndsAt :: rat
  targetIndex :: nat
  hitRecorded :: bool
  flashingTarget :: "nat option"
  flashEndsAt :: rat
  flashColor :: "FlashColor option"
  lastActivatedIndex :: "nat option"

text \<open>
  What one call of \<open>processFrame\<close> reads from outside: the mirrored frame returned by
  \<open>getImageData\<close> (its width is \<open>video.videoWidth = canvas.width\<close>), the value of
  \<open>performance.now()\<close> at each of its call sites, and the value of \<open>Math.random()\<close>.
\<close>

record tick =
  frame :: ImageData
  nowDraw :: rat
  nowClock :: rat
  nowEnd :: rat
  nowStart :: rat
  random :: rat

definition ROUND_MS :: rat where "ROUND_MS = 2000"
definition FLASH_MS :: rat where "FLASH_MS = 500"
definition MAX_HP :: int where "MAX_HP = 3"
definition THRESHOLD :: rat where "THRESHOLD = 15 / 100"

definition BUTTON_SIZE :: nat where "BUTTON_SIZE = 84"
definition BUTTON_PADDING :: nat where "BUTTON_PADDING = 16"
definition ROW_GAP :: nat where "ROW_GAP = 12"
definition BTN_COLOR :: string where "BTN_COLOR = ''rgba(220,220,220,0.32)''"

definition buttons :: "Button list" where
  "buttons =
    [\<lparr>action = Capture, side = Top, btn_w = BUTTON_SIZE, btn_h = BUTTON_SIZE,
      btn_x = Thunk (\<lambda>cw. (of_nat cw - of_nat BUTTON_SIZE) / 2),
      btn_y = Thunk (\<lambda>cw. of_nat BUTTON_PADDING)\<rparr>,
     \<lparr>action = Grayscale, side = Left, btn_w = BUTTON_SIZE, btn_h = BUTTON_SIZE,
      btn_x = Thunk (\<lambda>cw. of_nat BUTTON_PADDING),
      btn_y = Thunk (\<lambda>cw. of_nat BUTTON_PADDING + of_nat BUTTON_SIZE + of_nat ROW_GAP)\<rparr>,
     \<lparr>action = Save, side = Right, btn_w = BUTTON_SIZE, btn_h = BUTTON_SIZE,
      btn_x = Thunk (\<lambda>cw. of_nat cw - of_nat BUTTON_PADDING - of_nat BUTTON_SIZE),
      btn_y = Thunk (\<lambda>cw. of_nat BUTTON_PADDING + of_nat BUTTON_SIZE + of_nat ROW_GAP)\<rparr>]"

fun resolve :: "coord \<Rightarrow> nat \<Rightarrow> rat" where
  "resolve (Thunk f) cw = f cw"
| "resolve (Num v) cw = v"

text \<open>The module-level initialisers.\<close>

definition initial :: game where
  "initial = \<lparr>previousFrame = None, hp = MAX_HP, gameOver = False, roundActive = False,
     roundEndsAt = 0, targetIndex = 0, hitRecorded = False, flashingTarget = None,
     flashEndsAt = 0, flashColor = None, lastActivatedIndex = None\<rparr>"

section \<open>Double arithmetic\<close>

text \<open>
  The result of \<open>+\<close> or \<open>*\<close> on two doubles is the exact result rounded to the
  nearest double, ties to the even significand. \<open>roundToDouble\<close> is that rounding
  for 53-bit significands: \<open>expo x\<close> is the binary exponent of a positive \<open>x\<close>
  (the \<open>e\<close> with \<open>2^e \<le> x < 2^(e+1)\<close>), and the result is the multiple of
  \<open>2^(e-52)\<close> nearest to \<open>x\<close>. Overflow to \<open>Infinity\<close> (from \<open>2^1024\<close> on) and
  gradual underflow (below \<open>2^-1022\<close>) are left out: a clock reading plus 500 or 2000
  is in neither range, and the product with \<open>Math.random()\<close> is floored.
\<close>

definition pow2 :: "int \<Rightarrow> rat" where
  "pow2 e = (if 0 \<le> e then 2 ^ nat e else 1 / 2 ^ nat (- e))"

definition expo :: "rat \<Rightarrow> int" where
  "expo x = (let e = bitlen (fst (quotient_of x)) - bitlen (snd (quotient_of x))
             in if pow2 e \<le> x then e else e - 1)"

definition roundEven :: "rat \<Rightarrow> int" where
  "roundEven m = (let f = \<lfloor>m\<rfloor>; r = m - of_int f
                  in if r < 1 / 2 then f else if 1 / 2 < r then f + 1
                     else if even f then f else f + 1)"

definition roundToDouble :: "rat \<Rightarrow> rat" where
  "roundToDouble x =
     (if x = 0 then 0
      else let u = pow2 (expo \<bar>x\<bar> - 52)
           in sgn x * (of_int (roundEven (\<bar>x\<bar> / u)) * u))"

section \<open>Motion detection\<close>

text \<open>
  Reading a typed array outside its bounds gives \<open>undefined\<close>, and arithmetic on
  \<open>undefined\<close> gives \<open>NaN\<close>: both are \<open>None\<close> here. \<open>NaN > 50\<close> is false.
\<close>

definition chan :: "byte list \<Rightarrow> nat \<Rightarrow> int option" where
  "chan d i = (if i < length d then Some (uint (d ! i)) else None)"

definition absDiff :: "int option \<Rightarrow> int option \<Rightarrow> int option" where
  "absDiff a b = (case a of None \<Rightarrow> None
     | Some u \<Rightarrow> (case b of None \<Rightarrow> None | Some v \<Rightarrow> Some \<bar>u - v\<bar>))"

definition plus_num :: "int option \<Rightarrow> int option \<Rightarrow> int option" where
  "plus_num a b = (case a of None \<Rightarrow> None
     | Some u \<Rightarrow> (case b of None \<Rightarrow> None | Some v \<Rightarrow> Some (u + v)))"

definition delta :: "byte list \<Rightarrow> byte list \<Rightarrow> nat \<Rightarrow> int option" where
  "delta prevd currd i =
     plus_num (plus_num (absDiff (chan currd i) (chan prevd i))
                        (absDiff (chan currd (i + 1)) (chan prevd (i + 1))))
              (absDiff (chan currd (i + 2)) (chan prevd (i + 2)))"

definition motion :: "int option \<Rightarrow> byte" where
  "motion dl = (case dl of None \<Rightarrow> 0 | Some v \<Rightarrow> if 50 < v then 255 else 0)"

text \<open>
  The loop of \<open>detectMotion\<close>. A write past the end of a typed array is ignored, which
  is what \<open>list_update\<close> does. The chained assignment writes index \<open>i + 2\<close> first.
\<close>

function detectLoop :: "byte list \<Rightarrow> byte list \<Rightarrow> nat \<Rightarrow> byte list \<Rightarrow> byte list" where
  "detectLoop prevd currd i diff =
     (if i < length currd
      then let m = motion (delta prevd currd i)
           in detectLoop prevd currd (i + 4)
                (diff[i + 2 := m, i + 1 := m, i := m, i + 3 := 255])
      else diff)"
  by pat_completeness auto
termination
  by (relation "measure (\<lambda>(prevd, currd, i, diff). length currd - i)") auto

declare detectLoop.simps [simp del]

definition detectMotion :: "ImageData \<Rightarrow> ImageData \<Rightarrow> byte list" where
  "detectMotion prv cur =
     detectLoop (data prv) (data cur) 0 (replicate (length (data cur)) 0)"

section \<open>Button hit test\<close>

text \<open>
  \<open>diff[di] > 128\<close>: the index is a number; the read is \<open>undefined\<close> (and the test
  false) unless it is a whole number inside the array.
\<close>

definition motionAt :: "byte list \<Rightarrow> rat \<Rightarrow> bool" where
  "motionAt diff di =
     (0 \<le> di \<and> of_int \<lfloor>di\<rfloor> = di \<and> nat \<lfloor>di\<rfloor> < length diff
      \<and> 128 < uint (diff ! nat \<lfloor>di\<rfloor>))"

definition motionCount :: "byte list \<Rightarrow> nat \<Rightarrow> Button \<Rightarrow> nat" where
  "motionCount diff cw btn =
     (let x = resolve (btn_x btn) cw; y = resolve (btn_y btn) cw
      in foldl (\<lambda>cnt j.
           foldl (\<lambda>cnt i. if motionAt diff ((j * of_nat cw + i) * 4) then cnt + 1 else cnt)
             cnt (map (\<lambda>k. x + of_nat k) [0..<btn_w btn]))
           0 (map (\<lambda>k. y + of_nat k) [0..<btn_h btn]))"

text \<open>
  \<open>motionCount / totalPixels\<close>: a quotient of two counts, \<open>NaN\<close> for \<open>0 / 0\<close> and
  \<open>Infinity\<close> for a positive count over \<open>0\<close>.
\<close>

datatype jsnum = NaN | PosInf | Fin rat

definition jsdiv :: "nat \<Rightarrow> nat \<Rightarrow> jsnum" where
  "jsdiv m n = (if n = 0 then (if m = 0 then NaN else PosInf) else Fin (of_nat m / of_nat n))"

fun jsgt :: "jsnum \<Rightarrow> rat \<Rightarrow> bool" where
  "jsgt NaN t = False"
| "jsgt PosInf t = True"
| "jsgt (Fin q) t = (t < q)"

definition ratio :: "byte list \<Rightarrow> nat \<Rightarrow> Button \<Rightarrow> jsnum" where
  "ratio diff cw btn = jsdiv (motionCount diff cw btn) (btn_w btn * btn_h btn)"

text \<open>The callback of \<open>buttons.forEach\<close>, acting on the local \<open>frameLast\<close>.\<close>

definition eachButton :: "bool \<Rightarrow> byte list \<Rightarrow> nat \<Rightarrow> nat option \<Rightarrow> nat \<times> Button \<Rightarrow> nat option" where
  "eachButton ra diff cw frameLast ib =
     (if ra \<and> jsgt (ratio diff cw (snd ib)) THRESHOLD then Some (fst ib) else frameLast)"

definition frameLastOf :: "Button list \<Rightarrow> bool \<Rightarrow> byte list \<Rightarrow> nat \<Rightarrow> nat option" where
  "frameLastOf btns ra diff cw = foldl (eachButton ra diff cw) None (enumerate 0 btns)"

definition checkVirtualButtons :: "Button list \<Rightarrow> nat \<Rightarrow> byte list \<Rightarrow> game \<Rightarrow> game" where
  "checkVirtualButtons btns cw diff s =
     (case frameLastOf btns (roundActive s) diff cw of
        None \<Rightarrow> s
      | Some k \<Rightarrow> s\<lparr>lastActivatedIndex := Some k\<rparr>)"

section \<open>Game flow\<close>

text \<open>
  \<open>startRound\<close> reads the clock and \<open>Math.random()\<close>, a number in \<open>[0, 1)\<close>;
  \<open>n\<close> is \<open>buttons.length\<close>.
\<close>

definition startRound :: "nat \<Rightarrow> rat \<Rightarrow> rat \<Rightarrow> game \<Rightarrow> game" where
  "startRound n now r s =
     (if gameOver s then s
      else s\<lparr>roundActive := True, hitRecorded := False, lastActivatedIndex := None,
             targetIndex := nat \<lfloor>roundToDouble (r * of_nat n)\<rfloor>,
             roundEndsAt := roundToDouble (now + ROUND_MS),
             flashingTarget := None, flashColor := None\<rparr>)"

definition endRound :: "rat \<Rightarrow> game \<Rightarrow> game" where
  "endRound now s =
     (let hit = (lastActivatedIndex s = Some (targetIndex s));
          s1 = s\<lparr>roundActive := False, hitRecorded := hit,
                 flashingTarget := Some (targetIndex s),
                 flashColor := Some (if hit then success else fail),
                 flashEndsAt := roundToDouble (now + FLASH_MS)\<rparr>
      in if \<not> hit
         then (let s2 = s1\<lparr>hp := hp s1 - 1\<rparr>
               in if hp s2 = 0 then s2\<lparr>gameOver := True\<rparr> else s2)
         else s1)"

definition maybeAdvanceGameClock :: "nat \<Rightarrow> tick \<Rightarrow> game \<Rightarrow> game" where
  "maybeAdvanceGameClock n inp s =
     (let now = nowClock inp;
          s1 = (if \<not> gameOver s \<and> roundActive s \<and> roundEndsAt s \<le> now
                then endRound (nowEnd inp) s else s)
      in if \<not> gameOver s1 \<and> \<not> roundActive s1 \<and> flashingTarget s1 \<noteq> None
            \<and> flashEndsAt s1 \<le> now
         then startRound n (nowStart inp) (random inp) s1 else s1)"

section \<open>Main loop\<close>

text \<open>
  One call of \<open>processFrame\<close>, without the drawing. While \<open>video.videoWidth\<close> is 0
  the call only reschedules itself.
\<close>

definition processFrame :: "Button list \<Rightarrow> tick \<Rightarrow> game \<Rightarrow> game" where
  "processFrame btns inp s =
     (if width (frame inp) = 0 then s
      else let currentFrame = frame inp;
               s1 = (case previousFrame s of
                       None \<Rightarrow> s
                     | Some prev \<Rightarrow>
                         (let diff = detectMotion prev currentFrame
                          in if \<not> gameOver s
                             then checkVirtualButtons btns (width currentFrame) diff s
                             else s));
               s2 = (if \<not> gameOver s1 then maybeAdvanceGameClock (length btns) inp s1 else s1)
           in s2\<lparr>previousFrame := Some currentFrame\<rparr>)"

text \<open>
  \<open>startCamera\<close> starts the first round and then the frame loop; \<open>run\<close> is the state
  after a sequence of frames.
\<close>

definition startCamera :: "Button list \<Rightarrow> rat \<Rightarrow> rat \<Rightarrow> game" where
  "startCamera btns now r = startRound (length btns) now r initial"

definition run :: "Button list \<Rightarrow> rat \<Rightarrow> rat \<Rightarrow> tick list \<Rightarrow> game" where
  "run btns now r inps = foldl (\<lambda>s inp. processFrame btns inp s) (startCamera btns now r) inps"

text \<open>
  The fill colour \<open>drawVirtualButtons\<close> chooses for button \<open>idx\<close> when it reads the
  clock as \<open>now\<close>.
\<close>

definition buttonFill :: "game \<Rightarrow> rat \<Rightarrow> nat \<Rightarrow> string" where
  "buttonFill s now idx =
     (if \<not> roundActive s \<and> flashingTarget s = Some idx \<and> now < flashEndsAt s
      then (if flashColor s = Some success then ''rgba(38,201,64,0.45)''
            else ''rgba(230,67,67,0.45)'')
      else BTN_COLOR)"

text \<open>
  The phase of the round clock, read off the flags the way the guards of
  \<open>maybeAdvanceGameClock\<close> and \<open>processFrame\<close> read them.
\<close>

datatype Phase = Idle | RoundActive | Flash | GameOver

definition phase :: "game \<Rightarrow> Phase" where
  "phase s =
     (if gameOver s then GameOver
      else if roundActive s then RoundActive
      else if flashingTarget s \<noteq> None then Flash
      else Idle)"


section \<open>Specification-side notions\<close>

text \<open>
  The invariant of the lives counter: it stays between 0 and \<open>MAX_HP\<close>, and the
  \<open>gameOver\<close> flag is up exactly when it is 0.
\<close>

definition lives_ok :: "game \<Rightarrow> bool" where
  "lives_ok s = (0 \<le> hp s \<and> hp s \<le> MAX_HP \<and> gameOver s = (hp s = 0))"

text \<open>An \<open>ImageData\<close> holds four channel bytes for each of its pixels.\<close>

definition wellFormed :: "ImageData \<Rightarrow> bool" where
  "wellFormed img = (length (data img) = 4 * (width img * height img))"

text \<open>
  The summed channel delta of pixel \<open>p\<close> as the specification writes it:
  \<open>|R_cur - R_prev| + |G_cur - G_prev| + |B_cur - B_prev|\<close>.
\<close>

definition summedDelta :: "ImageData \<Rightarrow> ImageData \<Rightarrow> nat \<Rightarrow> int" where
  "summedDelta prv cur p =
     \<bar>uint (data cur ! (4 * p)) - uint (data prv ! (4 * p))\<bar>
     + \<bar>uint (data cur ! (4 * p + 1)) - uint (data prv ! (4 * p + 1))\<bar>
     + \<bar>uint (data cur ! (4 * p + 2)) - uint (data prv ! (4 * p + 2))\<bar>"

text \<open>
  The motion pixels inside a region's rectangle, as the specification counts them: a
  pixel of the mask (of width \<open>cw\<close>) is motion when it lies within the frame and its
  first channel is above 128; \<open>insideCount\<close> is the number of motion pixels among the
  \<open>w\<close> by \<open>h\<close> pixels whose top left one is \<open>(x0, y0)\<close>.
\<close>

definition maskMotion :: "byte list \<Rightarrow> nat \<Rightarrow> nat \<Rightarrow> nat \<Rightarrow> bool" where
  "maskMotion diff cw col row =
     (col < cw \<and> 4 * (row * cw + col) < length diff
      \<and> 128 < uint (diff ! (4 * (row * cw + col))))"

definition insideCount :: "byte list \<Rightarrow> nat \<Rightarrow> nat \<Rightarrow> nat \<Rightarrow> nat \<Rightarrow> nat \<Rightarrow> nat" where
  "insideCount diff cw x0 y0 w h =
     length (filter (\<lambda>(kr, kc). maskMotion diff cw (x0 + kc) (y0 + kr))
               (List.product [0..<h] [0..<w]))"

text \<open>
  The differ as an operation that may fail, to compare it with the contract
  \<open>diff(previous, current)\<close> of the specification. \<open>detectMotion\<close> has no failing
  path: it neither compares dimensions nor throws.
\<close>

datatype error = DimensionMismatch

definition frameDiffer :: "ImageData \<Rightarrow> ImageData \<Rightarrow> error + byte list" where
  "frameDiffer prv cur = Inr (detectMotion prv cur)"

section \<open>Small scenes\<close>

text \<open>
  A canvas of two pixels in one row with one button on each pixel.
\<close>

definition twoButtons :: "Button list" where
  "twoButtons =
    [\<lparr>action = Capture, side = Left, btn_w = 1, btn_h = 1, btn_x = Num 0, btn_y = Num 0\<rparr>,
     \<lparr>action = Save, side = Right, btn_w = 1, btn_h = 1,
      btn_x = Thunk (\<lambda>cw. of_nat cw - 1), btn_y = Num 0\<rparr>]"

definition dark :: ImageData where
  "dark = \<lparr>width = 2, height = 1, data = [0, 0, 0, 255, 0, 0, 0, 255]\<rparr>"

definition leftLit :: ImageData where
  "leftLit = \<lparr>width = 2, height = 1, data = [255, 255, 255, 255, 0, 0, 0, 255]\<rparr>"

definition bothLit :: ImageData where
  "bothLit = \<lparr>width = 2, height = 1, data = [255, 255, 255, 255, 255, 255, 255, 255]\<rparr>"

definition onePixel :: ImageData where
  "onePixel = \<lparr>width = 1, height = 1, data = [255, 255, 255, 255]\<rparr>"

text \<open>Against \<open>dark\<close>, the left pixel differs by 50 in all and the right one by 51.\<close>

definition nudged :: ImageData where
  "nudged = \<lparr>width = 2, height = 1, data = [20, 20, 10, 255, 20, 20, 11, 255]\<rparr>"

text \<open>The doubles written \<open>0.1\<close>, \<open>2000.1\<close>, \<open>7900.3\<close> and \<open>8400.3\<close>.\<close>

definition clock_0_1 :: rat where
  "clock_0_1 = 3602879701896397 / 36028797018963968"

definition clock_2000_1 :: rat where
  "clock_2000_1 = 4398266413429555 / 2199023255552"

definition clock_7900_3 :: rat where
  "clock_7900_3 = 8686471712918733 / 1099511627776"

definition clock_8400_3 :: rat where
  "clock_8400_3 = 2309056881701683 / 274877906944"

text \<open>A frame delivered when every clock reading of the call is \<open>t\<close>.\<close>

definition frameAt :: "ImageData \<Rightarrow> rat \<Rightarrow> tick" where
  "frameAt f t = \<lparr>frame = f, nowDraw = t, nowClock = t, nowEnd = t, nowStart = t, random = 0\<rparr>"




text \<open>A round in progress with a single life left and nothing activated.\<close>

definition lastLife :: game where
  "lastLife = \<lparr>previousFrame = Some dark, hp = 1, gameOver = False, roundActive = True,
     roundEndsAt = 2000, targetIndex = 0, hitRecorded = False, flashingTarget = None,
     flashEndsAt = 0, flashColor = None, lastActivatedIndex = None\<rparr>"

text \<open>Three rounds in which nothing moves: each deadline passes, then each flash.\<close>

definition threeMisses :: "tick list" where
  "threeMisses = [frameAt dark 2000, frameAt dark 2500, frameAt dark 4500,
                  frameAt dark 5000, frameAt dark 7000]"

text \<open>The player lights the left pixel, then the right one, then keeps still.\<close>

definition touchThenLeave :: "tick list" where
  "touchThenLeave = [frameAt dark 100, frameAt leftLit 200, frameAt bothLit 300,
                     frameAt bothLit 2000]"

text \<open>The state after the motion-detection block of \<open>processFrame\<close>, before the clock.\<close>

definition afterCheck :: "Button list \<Rightarrow> tick \<Rightarrow> game \<Rightarrow> game" where
  "afterCheck btns inp s =
     (case previousFrame s of
        None \<Rightarrow> s
      | Some prv \<Rightarrow> checkVirtualButtons btns (width (frame inp))
                      (detectMotion prv (frame inp)) s)"

section \<open>Rounding to a double\<close>

lemma pow2_powi: "pow2 e = 2 powi e"
  by (simp add: pow2_def power_int_def inverse_eq_divide power_one_over)

lemma pow2_pos: "0 < pow2 e"
  by (simp add: pow2_powi)

lemma pow2_diff: "pow2 (e - 52) = pow2 e / 2 ^ 52"
  by (simp add: pow2_powi power_int_diff)

text \<open>\<open>expo\<close> is the binary exponent: \<open>2^(expo x) \<le> x < 2^(expo x + 1)\<close>.\<close>

lemma expo_bounds:
  assumes "0 < x"
  shows "pow2 (expo x) \<le> x" and "x < pow2 (expo x + 1)"
proof -
  obtain p q where pq: "quotient_of x = (p, q)" by (cases "quotient_of x")
  have q: "0 < q" using pq by (rule quotient_of_denom_pos)
  have x: "x = of_int p / of_int q" using pq by (rule quotient_of_div)
  have p: "0 < p" using assms q x by (simp add: zero_less_divide_iff)
  let ?e = "bitlen p - bitlen q"
  have p1: "1 \<le> bitlen p" using p bitlen_eq_zero_iff [of p] bitlen_nonneg [of p] by linarith
  have q1: "1 \<le> bitlen q" using q bitlen_eq_zero_iff [of q] bitlen_nonneg [of q] by linarith
  have lo: "(2::rat) powi (bitlen k - 1) \<le> of_int k" if "0 < k" "1 \<le> bitlen k" for k
  proof -
    have "(2::rat) powi (bitlen k - 1) = 2 ^ nat (bitlen k - 1)"
      using that(2) by (simp add: power_int_def)
    also have "\<dots> = of_int (2 ^ nat (bitlen k - 1))" by simp
    also have "\<dots> \<le> of_int k"
      using bitlen_bounds [OF that(1)] by (simp only: of_int_le_iff)
    finally show ?thesis .
  qed
  have hi: "of_int k < (2::rat) powi (bitlen k)" if "0 < k" for k
  proof -
    have "(of_int k :: rat) < of_int (2 ^ nat (bitlen k))"
      using bitlen_bounds [OF that] by (simp only: of_int_less_iff)
    also have "\<dots> = 2 powi (bitlen k)" using bitlen_nonneg [of k] by (simp add: power_int_def)
    finally show ?thesis .
  qed
  have "?e - 1 = (bitlen p - 1) - bitlen q" by simp
  then have "pow2 (?e - 1) = 2 powi ((bitlen p - 1) - bitlen q)"
    by (simp only: pow2_powi)
  also have "\<dots> = 2 powi (bitlen p - 1) / 2 powi (bitlen q)"
    by (rule power_int_diff) simp
  also have "\<dots> \<le> of_int p / of_int q"
    using lo [OF p p1] hi [OF q] q p by (intro frac_le) simp_all
  finally have low: "pow2 (?e - 1) \<le> x" using x by simp
  have "?e + 1 = bitlen p - (bitlen q - 1)" by simp
  then have "pow2 (?e + 1) = 2 powi (bitlen p - (bitlen q - 1))"
    by (simp only: pow2_powi)
  also have "\<dots> = 2 powi (bitlen p) / 2 powi (bitlen q - 1)"
    by (rule power_int_diff) simp
  finally have up: "pow2 (?e + 1) = 2 powi (bitlen p) / 2 powi (bitlen q - 1)" .
  have "of_int p / of_int q < (2::rat) powi (bitlen p) / 2 powi (bitlen q - 1)"
    using hi [OF p] lo [OF q q1] p by (intro frac_less) simp_all
  then have high: "x < pow2 (?e + 1)" using x up by simp
  show "pow2 (expo x) \<le> x" using low pq by (simp add: expo_def Let_def)
  show "x < pow2 (expo x + 1)" using high pq by (auto simp: expo_def Let_def not_le)
qed

lemma roundEven_close: "\<bar>of_int (roundEven m) - m\<bar> \<le> 1 / 2"
proof -
  have "of_int \<lfloor>m\<rfloor> \<le> m" "m < of_int \<lfloor>m\<rfloor> + 1" by linarith+
  then show ?thesis by (auto simp: roundEven_def Let_def abs_le_iff)
qed

text \<open>The rounded value is within half a unit in the last place of the exact one.\<close>

lemma roundToDouble_close: "\<bar>roundToDouble x - x\<bar> \<le> \<bar>x\<bar> / 2 ^ 53"
proof (cases "x = 0")
  case True
  then show ?thesis by (simp add: roundToDouble_def)
next
  case False
  define a where "a = \<bar>x\<bar>"
  define u where "u = pow2 (expo a - 52)"
  have a: "0 < a" using False by (simp add: a_def)
  have u: "0 < u" by (simp add: u_def pow2_pos)
  have ule: "u \<le> a / 2 ^ 52"
    using expo_bounds(1) [OF a] by (simp add: u_def pow2_diff divide_right_mono)
  define n where "n = roundEven (a / u)"
  have r: "roundToDouble x = sgn x * (of_int n * u)"
    using False by (simp add: roundToDouble_def Let_def a_def u_def n_def)
  have "of_int n * u - a = (of_int n - a / u) * u"
    using u by (simp add: left_diff_distrib)
  then have "\<bar>of_int n * u - a\<bar> = \<bar>of_int n - a / u\<bar> * u"
    using u by (simp add: abs_mult)
  also have "\<dots> \<le> 1 / 2 * u"
    using roundEven_close [of "a / u"] u unfolding n_def by (intro mult_right_mono) simp_all
  also have "\<dots> \<le> 1 / 2 * (a / 2 ^ 52)" using ule by simp
  also have "\<dots> = a / 2 ^ 53" by simp
  finally have c: "\<bar>of_int n * u - a\<bar> \<le> a / 2 ^ 53" .
  have x: "x = sgn x * a" by (simp add: a_def sgn_mult_abs)
  have "\<bar>roundToDouble x - x\<bar> = \<bar>sgn x * (of_int n * u - a)\<bar>"
    by (subst r, subst (2) x) (simp add: right_diff_distrib)
  also have "\<dots> = \<bar>of_int n * u - a\<bar>" using False by (simp add: abs_mult abs_sgn_eq)
  finally show ?thesis using c by (simp add: a_def)
qed

text \<open>
  The rounding is visible in the program: for \<open>Math.random()\<close> returning the double
  written \<open>2/3\<close> and three buttons the rounded product is 2, the exact one is below 2.
\<close>

lemma rounded_product_example:
  "nat \<lfloor>roundToDouble (6004799503160661 / 9007199254740992 * of_nat 3)\<rfloor> = 2"
  "nat \<lfloor>(6004799503160661 / 9007199254740992 :: rat) * of_nat 3\<rfloor> = 1"
  by code_simp+

text \<open>A double rounds to itself, and \<open>0.1 + 2000\<close> and \<open>7900.3 + 500\<close> round down.\<close>

lemma rounded_sum_examples:
  "roundToDouble clock_0_1 = clock_0_1"
  "roundToDouble clock_2000_1 = clock_2000_1"
  "roundToDouble (clock_0_1 + 2000) = clock_2000_1"
  "clock_2000_1 < clock_0_1 + 2000"
  "roundToDouble (clock_7900_3 + 500) = clock_8400_3"
  "clock_8400_3 < clock_7900_3 + 500"
  by code_simp+

text \<open>
  Below \<open>2^53\<close> ms (285 000 years), a clock reading plus a constant of at least 2 ms
  rounds to a double strictly later than the reading and than every earlier reading.
\<close>

lemma sum_is_later:
  assumes "t' \<le> t" "\<bar>t\<bar> < 2 ^ 53" "2 \<le> c" "c \<le> 2 ^ 53"
  shows "t' < roundToDouble (t + c)"
proof -
  have "\<bar>t + c\<bar> < 2 ^ 53 + c" using assms by linarith
  then have "\<bar>t + c\<bar> / 2 ^ 53 < (2 ^ 53 + c) / 2 ^ 53" by (simp add: divide_strict_right_mono)
  also have "\<dots> \<le> 2" using assms(4) by simp
  finally have "\<bar>roundToDouble (t + c) - (t + c)\<bar> < 2"
    using roundToDouble_close [of "t + c"] by linarith
  then have "t + c - 2 < roundToDouble (t + c)" by (simp add: abs_less_iff)
  then show ?thesis using assms(1,3) by linarith
qed

section \<open>Field-by-field effect of the transitions\<close>

lemma endRound_fields:
  "roundActive (endRound t s) = False"
  "hitRecorded (endRound t s) = (lastActivatedIndex s = Some (targetIndex s))"
  "flashingTarget (endRound t s) = Some (targetIndex s)"
  "flashColor (endRound t s) =
     Some (if lastActivatedIndex s = Some (targetIndex s) then success else fail)"
  "flashEndsAt (endRound t s) = roundToDouble (t + FLASH_MS)"
  "lastActivatedIndex (endRound t s) = lastActivatedIndex s"
  "targetIndex (endRound t s) = targetIndex s"
  "roundEndsAt (endRound t s) = roundEndsAt s"
  "previousFrame (endRound t s) = previousFrame s"
  "hp (endRound t s) = (if lastActivatedIndex s = Some (targetIndex s) then hp s else hp s - 1)"
  "gameOver (endRound t s) =
     (gameOver s \<or> (lastActivatedIndex s \<noteq> Some (targetIndex s) \<and> hp s = 1))"
  by (auto simp: endRound_def Let_def)

lemma startRound_fields:
  "hp (startRound n t r s) = hp s"
  "gameOver (startRound n t r s) = gameOver s"
  "previousFrame (startRound n t r s) = previousFrame s"
  "\<not> gameOver s \<Longrightarrow> roundActive (startRound n t r s)"
  "\<not> gameOver s \<Longrightarrow> roundEndsAt (startRound n t r s) = roundToDouble (t + ROUND_MS)"
  "\<not> gameOver s \<Longrightarrow> lastActivatedIndex (startRound n t r s) = None"
  by (simp_all add: startRound_def)

lemma checkVirtualButtons_fields:
  "roundActive (checkVirtualButtons b cw d s) = roundActive s"
  "gameOver (checkVirtualButtons b cw d s) = gameOver s"
  "hp (checkVirtualButtons b cw d s) = hp s"
  "roundEndsAt (checkVirtualButtons b cw d s) = roundEndsAt s"
  "targetIndex (checkVirtualButtons b cw d s) = targetIndex s"
  "flashingTarget (checkVirtualButtons b cw d s) = flashingTarget s"
  "flashEndsAt (checkVirtualButtons b cw d s) = flashEndsAt s"
  "flashColor (checkVirtualButtons b cw d s) = flashColor s"
  "hitRecorded (checkVirtualButtons b cw d s) = hitRecorded s"
  "previousFrame (checkVirtualButtons b cw d s) = previousFrame s"
  by (simp_all add: checkVirtualButtons_def split: option.splits)

lemma flash_deadline_is_later:
  assumes "nowClock inp \<le> nowEnd inp" "\<bar>nowEnd inp\<bar> < 2 ^ 53"
  shows "nowClock inp < flashEndsAt (endRound (nowEnd inp) s)"
  using sum_is_later [OF assms, of 500] by (simp add: endRound_fields FLASH_MS_def)

lemma clock_at_deadline:
  assumes "nowClock inp \<le> nowEnd inp" "\<bar>nowEnd inp\<bar> < 2 ^ 53"
    and "\<not> gameOver s" "roundActive s" "roundEndsAt s \<le> nowClock inp"
  shows "maybeAdvanceGameClock n inp s = endRound (nowEnd inp) s"
  using assms flash_deadline_is_later [OF assms(1,2), of s]
  by (simp add: maybeAdvanceGameClock_def Let_def)

lemma clock_before_deadline:
  assumes "roundActive s" "nowClock inp < roundEndsAt s"
  shows "maybeAdvanceGameClock n inp s = s"
  using assms by (simp add: maybeAdvanceGameClock_def Let_def)

lemma clock_cases:
  assumes "nowClock inp \<le> nowEnd inp" "\<bar>nowEnd inp\<bar> < 2 ^ 53"
  shows "maybeAdvanceGameClock n inp s = s
       \<or> maybeAdvanceGameClock n inp s = endRound (nowEnd inp) s
       \<or> maybeAdvanceGameClock n inp s = startRound n (nowStart inp) (random inp) s"
proof (cases "\<not> gameOver s \<and> roundActive s \<and> roundEndsAt s \<le> nowClock inp")
  case True
  then show ?thesis using assms by (simp add: clock_at_deadline)
next
  case False
  then show ?thesis by (auto simp: maybeAdvanceGameClock_def Let_def)
qed

lemma afterCheck_fields:
  "roundActive (afterCheck btns inp s) = roundActive s"
  "gameOver (afterCheck btns inp s) = gameOver s"
  "hp (afterCheck btns inp s) = hp s"
  "roundEndsAt (afterCheck btns inp s) = roundEndsAt s"
  "targetIndex (afterCheck btns inp s) = targetIndex s"
  by (simp_all add: afterCheck_def checkVirtualButtons_fields split: option.splits)

lemma processFrame_unfold:
  assumes "width (frame inp) \<noteq> 0" "\<not> gameOver s"
  shows "processFrame btns inp s =
     (maybeAdvanceGameClock (length btns) inp (afterCheck btns inp s))
     \<lparr>previousFrame := Some (frame inp)\<rparr>"
  using assms
  by (simp add: processFrame_def afterCheck_def Let_def checkVirtualButtons_fields
      split: option.splits)

lemma processFrame_in_round:
  assumes "width (frame inp) \<noteq> 0" "\<not> gameOver s" "roundActive s"
    and "nowClock inp \<le> nowEnd inp" "\<bar>nowEnd inp\<bar> < 2 ^ 53"
  shows "processFrame btns inp s =
     (if roundEndsAt s \<le> nowClock inp then endRound (nowEnd inp) (afterCheck btns inp s)
      else afterCheck btns inp s) \<lparr>previousFrame := Some (frame inp)\<rparr>"
proof (cases "roundEndsAt s \<le> nowClock inp")
  case True
  then show ?thesis using assms
    by (simp add: processFrame_unfold clock_at_deadline afterCheck_fields)
next
  case False
  then show ?thesis using assms
    by (simp add: processFrame_unfold clock_before_deadline afterCheck_fields)
qed

lemma processFrame_gameOver:
  "gameOver s \<Longrightarrow> processFrame btns inp s =
     (if width (frame inp) = 0 then s else s\<lparr>previousFrame := Some (frame inp)\<rparr>)"
  by (simp add: processFrame_def Let_def split: option.splits)


section \<open>The lives counter\<close>

lemma lives_ok_start: "lives_ok (startCamera btns t r)"
  by (simp add: startCamera_def startRound_def initial_def lives_ok_def MAX_HP_def)

lemma lives_ok_clock:
  assumes "lives_ok s"
  shows "lives_ok (maybeAdvanceGameClock n inp s) \<and> hp (maybeAdvanceGameClock n inp s) \<le> hp s"
  using assms
  by (auto simp: maybeAdvanceGameClock_def Let_def lives_ok_def endRound_fields startRound_fields)

lemma lives_ok_step:
  assumes "lives_ok s"
  shows "lives_ok (processFrame btns inp s) \<and> hp (processFrame btns inp s) \<le> hp s"
proof (cases "gameOver s")
  case True
  then show ?thesis using assms
    by (simp add: processFrame_gameOver lives_ok_def)
next
  case False
  show ?thesis
  proof (cases "width (frame inp) = 0")
    case True
    then show ?thesis using assms by (simp add: processFrame_def)
  next
    case wd: False
    have "lives_ok (afterCheck btns inp s)" "hp (afterCheck btns inp s) = hp s"
      using assms by (simp_all add: lives_ok_def afterCheck_fields)
    then show ?thesis
      using False wd lives_ok_clock [of "afterCheck btns inp s" "length btns" inp]
      by (simp add: processFrame_unfold lives_ok_def)
  qed
qed

lemma run_snoc: "run btns t r (inps @ [inp]) = processFrame btns inp (run btns t r inps)"
  by (simp add: run_def)

lemma run_append:
  "run btns t r (inps @ rest) =
     foldl (\<lambda>s inp. processFrame btns inp s) (run btns t r inps) rest"
  by (simp add: run_def)

lemma lives_ok_run: "lives_ok (run btns t r inps)"
proof (induction inps rule: rev_induct)
  case Nil
  show ?case by (simp add: run_def lives_ok_start)
next
  case (snoc inp inps)
  then show ?case by (simp add: run_snoc lives_ok_step)
qed

lemma frames_keep_lives_ok:
  "lives_ok s \<Longrightarrow> lives_ok (foldl (\<lambda>s inp. processFrame btns inp s) s rest)
     \<and> hp (foldl (\<lambda>s inp. processFrame btns inp s) s rest) \<le> hp s"
proof (induction rest rule: rev_induct)
  case Nil
  then show ?case by simp
next
  case (snoc inp rest)
  then show ?case
    using lives_ok_step [of "foldl (\<lambda>s inp. processFrame btns inp s) s rest" btns inp]
    by auto
qed

lemma gameOver_frozen:
  "gameOver s \<Longrightarrow>
     \<exists>pf. foldl (\<lambda>s inp. processFrame btns inp s) s rest = s\<lparr>previousFrame := pf\<rparr>"
proof (induction rest rule: rev_induct)
  case Nil
  have "s = s\<lparr>previousFrame := previousFrame s\<rparr>" by simp
  then show ?case by (simp only: foldl_Nil) (rule exI)
next
  case (snoc inp rest)
  then obtain pf where
    pf: "foldl (\<lambda>s inp. processFrame btns inp s) s rest = s\<lparr>previousFrame := pf\<rparr>"
    by blast
  have "gameOver (s\<lparr>previousFrame := pf\<rparr>)" using snoc.prems by simp
  then show ?case
    by (cases "width (frame inp) = 0") (auto simp: pf processFrame_gameOver)
qed

text \<open>
  C1. From the start of the camera on, through any sequence of frames, \<open>hp\<close> stays in
  \<open>[0, MAX_HP]\<close> and never goes up. Once it is 0 the phase is \<open>GameOver\<close> after any
  further frames, those frames change nothing but the held previous frame, and a
  further call of \<open>processFrame\<close> runs neither the button check nor the clock.
\<close>

theorem lives_decrease_and_game_over_is_terminal:
  "0 \<le> hp (run btns t r inps) \<and> hp (run btns t r inps) \<le> MAX_HP
   \<and> hp (run btns t r (inps @ rest)) \<le> hp (run btns t r inps)
   \<and> (hp (run btns t r inps) = 0 \<longrightarrow>
        phase (run btns t r (inps @ rest)) = GameOver
        \<and> run btns t r (inps @ rest) =
            (run btns t r inps)\<lparr>previousFrame := previousFrame (run btns t r (inps @ rest))\<rparr>
        \<and> processFrame btns inp (run btns t r (inps @ rest)) =
            (if width (frame inp) = 0 then run btns t r (inps @ rest)
             else (run btns t r (inps @ rest))\<lparr>previousFrame := Some (frame inp)\<rparr>))"
proof -
  let ?s = "run btns t r inps" and ?s' = "run btns t r (inps @ rest)"
  have ok: "lives_ok ?s" by (rule lives_ok_run)
  have mono: "hp ?s' \<le> hp ?s"
    using frames_keep_lives_ok [OF ok, of btns rest] by (simp add: run_append)
  have frozen: "phase ?s' = GameOver \<and> ?s' = ?s\<lparr>previousFrame := previousFrame ?s'\<rparr>
      \<and> processFrame btns inp ?s' =
          (if width (frame inp) = 0 then ?s' else ?s'\<lparr>previousFrame := Some (frame inp)\<rparr>)"
    if z: "hp ?s = 0"
  proof -
    have over: "gameOver ?s" using ok z by (simp add: lives_ok_def)
    obtain pf where pf: "?s' = ?s\<lparr>previousFrame := pf\<rparr>"
      using gameOver_frozen [OF over, of btns rest] by (auto simp: run_append)
    have over': "gameOver ?s'" by (subst pf) (simp add: over)
    have "?s' = ?s\<lparr>previousFrame := previousFrame ?s'\<rparr>"
      by (subst (2) pf, subst pf) simp
    then show ?thesis using over'
      by (simp add: phase_def processFrame_gameOver)
  qed
  show ?thesis using ok mono frozen by (simp add: lives_ok_def)
qed

theorem lives_decrease_and_game_over_is_terminal_witness:
  "hp (run twoButtons 0 0 threeMisses) = 0
   \<and> hp (run twoButtons 0 0 (threeMisses @ [frameAt leftLit 9000])) \<le> 0
   \<and> phase (run twoButtons 0 0 (threeMisses @ [frameAt leftLit 9000])) = GameOver
   \<and> processFrame twoButtons (frameAt bothLit 9016)
        (run twoButtons 0 0 (threeMisses @ [frameAt leftLit 9000])) =
      (run twoButtons 0 0 (threeMisses @ [frameAt leftLit 9000]))
        \<lparr>previousFrame := Some bothLit\<rparr>"
proof -
  have z: "hp (run twoButtons 0 0 threeMisses) = 0" by code_simp
  have w: "width (frame (frameAt bothLit 9016)) \<noteq> 0" by (simp add: frameAt_def bothLit_def)
  have f: "frame (frameAt bothLit 9016) = bothLit" by (simp add: frameAt_def)
  show ?thesis
    using lives_decrease_and_game_over_is_terminal
      [of twoButtons 0 0 threeMisses "[frameAt leftLit 9000]" "frameAt bothLit 9016"] z w f
    by simp
qed

section \<open>The round clock\<close>

lemma phase_iff:
  "phase s = RoundActive \<longleftrightarrow> \<not> gameOver s \<and> roundActive s"
  "phase s = Flash \<longleftrightarrow> \<not> gameOver s \<and> \<not> roundActive s \<and> flashingTarget s \<noteq> None"
  "phase s = GameOver \<longleftrightarrow> gameOver s"
  "phase s = Idle \<longleftrightarrow> \<not> gameOver s \<and> \<not> roundActive s \<and> flashingTarget s = None"
  by (simp_all add: phase_def)

lemma phase_endRound:
  "\<not> gameOver s \<Longrightarrow> phase (endRound t s) =
     (if lastActivatedIndex s \<noteq> Some (targetIndex s) \<and> hp s = 1 then GameOver else Flash)"
  by (simp add: phase_def endRound_fields)

lemma phase_previousFrame: "phase (s\<lparr>previousFrame := pf\<rparr>) = phase s"
  by (simp add: phase_def)

text \<open>
  The flash deadline is later than the clock only while adding 500 changes the double:
  at \<open>2^62\<close> ms the sum rounds back to the reading, and the same call ends the round
  and starts the next one.
\<close>

lemma same_tick_restart_beyond_range:
  "roundToDouble (2 ^ 62 + 500) = 2 ^ 62"
  "phase (maybeAdvanceGameClock 2 (frameAt dark (2 ^ 62)) (startCamera twoButtons 0 0))
     = RoundActive"
  "hp (maybeAdvanceGameClock 2 (frameAt dark (2 ^ 62)) (startCamera twoButtons 0 0)) = 2"
  by code_simp+

text \<open>
  C8. With the clock read by \<open>endRound\<close> not earlier than the one read by
  \<open>maybeAdvanceGameClock\<close> (\<open>performance.now()\<close> is monotonic) and below \<open>2^53\<close> ms,
  one call of \<open>maybeAdvanceGameClock\<close> makes at most one transition. In an active round
  whose deadline has passed it is exactly \<open>endRound\<close>: the phase becomes \<open>Flash\<close> or
  \<open>GameOver\<close>, the new flash deadline is strictly later than the tick's timestamp, and
  no round is started on the same tick. In the flash phase it is at most \<open>startRound\<close>;
  in \<open>GameOver\<close> and \<open>Idle\<close> it does nothing.
\<close>

theorem clock_makes_one_transition_per_tick:
  assumes "nowClock inp \<le> nowEnd inp" "\<bar>nowEnd inp\<bar> < 2 ^ 53"
  shows "(phase s = RoundActive \<longrightarrow>
            maybeAdvanceGameClock n inp s =
              (if roundEndsAt s \<le> nowClock inp then endRound (nowEnd inp) s else s)
            \<and> (roundEndsAt s \<le> nowClock inp \<longrightarrow>
                 (phase (maybeAdvanceGameClock n inp s) = Flash
                  \<or> phase (maybeAdvanceGameClock n inp s) = GameOver)
                 \<and> nowClock inp < flashEndsAt (maybeAdvanceGameClock n inp s)))
       \<and> (phase s = Flash \<longrightarrow>
            maybeAdvanceGameClock n inp s =
              (if flashEndsAt s \<le> nowClock inp
               then startRound n (nowStart inp) (random inp) s else s)
            \<and> (flashEndsAt s \<le> nowClock inp \<longrightarrow>
                 phase (maybeAdvanceGameClock n inp s) = RoundActive))
       \<and> (phase s = GameOver \<or> phase s = Idle \<longrightarrow> maybeAdvanceGameClock n inp s = s)"
proof (intro conjI impI)
  assume ra: "phase s = RoundActive"
  then have f: "\<not> gameOver s" "roundActive s" by (simp_all add: phase_iff)
  show eq: "maybeAdvanceGameClock n inp s =
      (if roundEndsAt s \<le> nowClock inp then endRound (nowEnd inp) s else s)"
    using f assms by (simp add: clock_at_deadline clock_before_deadline)
  assume dl: "roundEndsAt s \<le> nowClock inp"
  show "phase (maybeAdvanceGameClock n inp s) = Flash
      \<or> phase (maybeAdvanceGameClock n inp s) = GameOver"
    using eq dl f by (simp add: phase_endRound)
  show "nowClock inp < flashEndsAt (maybeAdvanceGameClock n inp s)"
    using eq dl flash_deadline_is_later [OF assms, of s] by simp
next
  assume fl: "phase s = Flash"
  then have f: "\<not> gameOver s" "\<not> roundActive s" "flashingTarget s \<noteq> None"
    by (simp_all add: phase_iff)
  show eq: "maybeAdvanceGameClock n inp s =
      (if flashEndsAt s \<le> nowClock inp then startRound n (nowStart inp) (random inp) s else s)"
    using f by (simp add: maybeAdvanceGameClock_def Let_def)
  assume "flashEndsAt s \<le> nowClock inp"
  then show "phase (maybeAdvanceGameClock n inp s) = RoundActive"
    using eq f by (simp add: phase_iff startRound_fields)
next
  assume "phase s = GameOver \<or> phase s = Idle"
  then show "maybeAdvanceGameClock n inp s = s"
    by (auto simp: phase_iff maybeAdvanceGameClock_def Let_def)
qed

theorem clock_makes_one_transition_per_tick_witness:
  "nowClock (frameAt dark 2000) \<le> nowEnd (frameAt dark 2000)
   \<and> \<bar>nowEnd (frameAt dark 2000)\<bar> < 2 ^ 53
   \<and> phase (startCamera twoButtons 0 0) = RoundActive
   \<and> roundEndsAt (startCamera twoButtons 0 0) \<le> nowClock (frameAt dark 2000)
   \<and> maybeAdvanceGameClock 2 (frameAt dark 2000) (startCamera twoButtons 0 0) =
       endRound 2000 (startCamera twoButtons 0 0)
   \<and> phase (maybeAdvanceGameClock 2 (frameAt dark 2000) (startCamera twoButtons 0 0)) = Flash
   \<and> nowClock (frameAt dark 2000)
       < flashEndsAt (maybeAdvanceGameClock 2 (frameAt dark 2000) (startCamera twoButtons 0 0))"
proof -
  have c: "nowClock (frameAt dark 2000) \<le> nowEnd (frameAt dark 2000)"
    by (simp add: frameAt_def)
  have b: "\<bar>nowEnd (frameAt dark 2000)\<bar> < 2 ^ 53" by (simp add: frameAt_def)
  have p: "phase (startCamera twoButtons 0 0) = RoundActive" by code_simp
  have d: "roundEndsAt (startCamera twoButtons 0 0) \<le> nowClock (frameAt dark 2000)"
    by code_simp
  have e: "nowEnd (frameAt dark 2000) = 2000" by (simp add: frameAt_def)
  have q: "phase (endRound 2000 (startCamera twoButtons 0 0)) = Flash" by code_simp
  have "maybeAdvanceGameClock 2 (frameAt dark 2000) (startCamera twoButtons 0 0) =
          endRound 2000 (startCamera twoButtons 0 0)
      \<and> nowClock (frameAt dark 2000)
          < flashEndsAt (maybeAdvanceGameClock 2 (frameAt dark 2000) (startCamera twoButtons 0 0))"
    using clock_makes_one_transition_per_tick [OF c b, of "startCamera twoButtons 0 0" 2] p d e
    by auto
  then show ?thesis using c b p d q by auto
qed

text \<open>
  C5. \<open>startRound\<close> sets the deadline to its clock reading plus 2000 ms, the sum
  being the code's double sum, which is within half a unit in the last place of the
  exact one. A frame processed during an active round (video ready, monotonic clock
  below \<open>2^53\<close> ms) whose timestamp is before the stored deadline, in particular at
  \<open>deadline - 1\<close>, leaves the phase \<open>RoundActive\<close> and the deadline unchanged; a
  frame whose timestamp is at or after the stored deadline moves the phase to
  \<open>Flash\<close>, or to \<open>GameOver\<close> when the round was missed and the miss took the last
  life.
\<close>

theorem round_deadline:
  assumes "phase s = RoundActive" "width (frame inp) \<noteq> 0"
    and "nowClock inp \<le> nowEnd inp" "\<bar>nowEnd inp\<bar> < 2 ^ 53"
  shows "(\<not> gameOver s0 \<longrightarrow>
            roundEndsAt (startRound n t r s0) = roundToDouble (t + 2000)
            \<and> \<bar>roundEndsAt (startRound n t r s0) - (t + 2000)\<bar> \<le> \<bar>t + 2000\<bar> / 2 ^ 53
            \<and> phase (startRound n t r s0) = RoundActive)
       \<and> (nowClock inp < roundEndsAt s \<longrightarrow>
            phase (processFrame btns inp s) = RoundActive
            \<and> roundEndsAt (processFrame btns inp s) = roundEndsAt s)
       \<and> (nowClock inp = roundEndsAt s - 1 \<longrightarrow> phase (processFrame btns inp s) = RoundActive)
       \<and> (roundEndsAt s \<le> nowClock inp \<longrightarrow>
            phase (processFrame btns inp s) =
              (if \<not> hitRecorded (processFrame btns inp s) \<and> hp (processFrame btns inp s) = 0
               then GameOver else Flash)
            \<and> hp (processFrame btns inp s) =
                (if hitRecorded (processFrame btns inp s) then hp s else hp s - 1))"
proof -
  have f: "\<not> gameOver s" "roundActive s" using assms(1) by (simp_all add: phase_iff)
  note pf = processFrame_in_round [OF assms(2) f assms(3) assms(4), of btns]
  have start: "\<not> gameOver s0 \<longrightarrow>
      roundEndsAt (startRound n t r s0) = roundToDouble (t + 2000)
      \<and> \<bar>roundEndsAt (startRound n t r s0) - (t + 2000)\<bar> \<le> \<bar>t + 2000\<bar> / 2 ^ 53
      \<and> phase (startRound n t r s0) = RoundActive"
    using roundToDouble_close [of "t + 2000"]
    by (simp add: startRound_fields ROUND_MS_def phase_iff)
  have before: "phase (processFrame btns inp s) = RoundActive
      \<and> roundEndsAt (processFrame btns inp s) = roundEndsAt s"
    if "nowClock inp < roundEndsAt s"
    using that f by (simp add: pf phase_iff afterCheck_fields)
  have after: "phase (processFrame btns inp s) =
              (if \<not> hitRecorded (processFrame btns inp s) \<and> hp (processFrame btns inp s) = 0
               then GameOver else Flash)
            \<and> hp (processFrame btns inp s) =
                (if hitRecorded (processFrame btns inp s) then hp s else hp s - 1)"
    if "roundEndsAt s \<le> nowClock inp"
    using that f
    by (simp add: pf phase_previousFrame phase_endRound endRound_fields afterCheck_fields)
  have just_before: "phase (processFrame btns inp s) = RoundActive"
    if "nowClock inp = roundEndsAt s - 1"
    using that before by simp
  show ?thesis using start before just_before after by blast
qed

theorem round_deadline_witness:
  "phase (startCamera twoButtons clock_0_1 0) = RoundActive
   \<and> roundEndsAt (startRound 2 clock_0_1 0 initial) = clock_2000_1
   \<and> clock_2000_1 < clock_0_1 + 2000
   \<and> nowClock (frameAt dark (clock_2000_1 - 1)) = roundEndsAt (startCamera twoButtons clock_0_1 0) - 1
   \<and> phase (processFrame twoButtons (frameAt dark (clock_2000_1 - 1))
        (startCamera twoButtons clock_0_1 0)) = RoundActive
   \<and> roundEndsAt (startCamera twoButtons clock_0_1 0) \<le> nowClock (frameAt dark clock_2000_1)
   \<and> phase (processFrame twoButtons (frameAt dark clock_2000_1)
        (startCamera twoButtons clock_0_1 0)) = Flash
   \<and> phase (processFrame twoButtons (frameAt dark 2000) lastLife) = GameOver"
proof -
  let ?s = "startCamera twoButtons clock_0_1 0"
  have p: "phase ?s = RoundActive" "phase lastLife = RoundActive" by code_simp+
  have w: "width (frame (frameAt dark (clock_2000_1 - 1))) \<noteq> 0"
    "width (frame (frameAt dark clock_2000_1)) \<noteq> 0"
    "width (frame (frameAt dark 2000)) \<noteq> 0"
    by code_simp+
  have c: "nowClock (frameAt dark (clock_2000_1 - 1)) \<le> nowEnd (frameAt dark (clock_2000_1 - 1))"
    "nowClock (frameAt dark clock_2000_1) \<le> nowEnd (frameAt dark clock_2000_1)"
    "nowClock (frameAt dark 2000) \<le> nowEnd (frameAt dark 2000)"
    by (simp_all add: frameAt_def)
  have r: "\<bar>nowEnd (frameAt dark (clock_2000_1 - 1))\<bar> < 2 ^ 53"
    "\<bar>nowEnd (frameAt dark clock_2000_1)\<bar> < 2 ^ 53"
    "\<bar>nowEnd (frameAt dark 2000)\<bar> < 2 ^ 53"
    by (simp_all add: frameAt_def clock_2000_1_def)
  have g: "\<not> gameOver initial" by (simp add: initial_def)
  have v: "roundToDouble (clock_0_1 + 2000) = clock_2000_1" "clock_2000_1 < clock_0_1 + 2000"
    by code_simp+
  have b: "nowClock (frameAt dark (clock_2000_1 - 1)) = roundEndsAt ?s - 1" by code_simp
  have a: "roundEndsAt ?s \<le> nowClock (frameAt dark clock_2000_1)"
    "roundEndsAt lastLife \<le> nowClock (frameAt dark 2000)" by code_simp+
  have h: "hp (processFrame twoButtons (frameAt dark clock_2000_1) ?s) = 2"
    "hp (processFrame twoButtons (frameAt dark 2000) lastLife) = 0"
    "\<not> hitRecorded (processFrame twoButtons (frameAt dark 2000) lastLife)" by code_simp+
  show ?thesis
    using round_deadline [OF p(1) w(1) c(1) r(1), of initial 2 clock_0_1 0 twoButtons]
      round_deadline [OF p(1) w(2) c(2) r(2), of initial 2 clock_0_1 0 twoButtons]
      round_deadline [OF p(2) w(3) c(3) r(3), of initial 2 clock_0_1 0 twoButtons]
      p g v b a h
    by auto
qed

section \<open>The last miss\<close>

lemma buttonFill_previousFrame: "buttonFill (s\<lparr>previousFrame := pf\<rparr>) now idx = buttonFill s now idx"
  by (simp add: buttonFill_def)

text \<open>
  C2, as the code has it. When the deadline of an active round passes with a miss and
  one life left, the same call of \<open>maybeAdvanceGameClock\<close> ends in \<open>GameOver\<close> with
  0 lives and starts no new round; but \<open>endRound\<close> has set the flash fields all the
  same: the flashing target is the round's target, the colour is \<open>fail\<close>, the flash
  deadline is the double sum of the clock reading and 500 ms, and on every later frame
  \<open>drawVirtualButtons\<close> fills the target button with the fail tint when it reads the
  clock strictly before that stored deadline, and with the plain colour from the
  deadline on.
\<close>

theorem last_miss_is_game_over_with_flash_fields_set:
  assumes "phase s = RoundActive" "roundEndsAt s \<le> nowClock inp"
    and "lastActivatedIndex s \<noteq> Some (targetIndex s)" "hp s = 1"
  shows "phase (maybeAdvanceGameClock n inp s) = GameOver
       \<and> hp (maybeAdvanceGameClock n inp s) = 0
       \<and> flashingTarget (maybeAdvanceGameClock n inp s) = Some (targetIndex s)
       \<and> flashColor (maybeAdvanceGameClock n inp s) = Some fail
       \<and> flashEndsAt (maybeAdvanceGameClock n inp s) = roundToDouble (nowEnd inp + 500)
       \<and> buttonFill (foldl (\<lambda>s inp. processFrame btns inp s)
                       (maybeAdvanceGameClock n inp s) rest) now (targetIndex s)
          = (if now < flashEndsAt (maybeAdvanceGameClock n inp s)
             then ''rgba(230,67,67,0.45)'' else BTN_COLOR)"
proof -
  have f: "\<not> gameOver s" "roundActive s" using assms(1) by (simp_all add: phase_iff)
  have over: "gameOver (endRound (nowEnd inp) s)"
    using assms by (simp add: endRound_fields)
  have eq: "maybeAdvanceGameClock n inp s = endRound (nowEnd inp) s"
    using f assms(2) over by (simp add: maybeAdvanceGameClock_def Let_def)
  obtain pf where pf: "foldl (\<lambda>s inp. processFrame btns inp s) (endRound (nowEnd inp) s) rest
      = (endRound (nowEnd inp) s)\<lparr>previousFrame := pf\<rparr>"
    using gameOver_frozen [OF over] by blast
  show ?thesis
    using assms over
    by (simp add: eq pf buttonFill_previousFrame buttonFill_def phase_iff endRound_fields
        FLASH_MS_def)
qed

theorem last_miss_is_game_over_with_flash_fields_set_witness:
  "phase lastLife = RoundActive \<and> roundEndsAt lastLife \<le> nowClock (frameAt dark clock_7900_3)
   \<and> lastActivatedIndex lastLife \<noteq> Some (targetIndex lastLife) \<and> hp lastLife = 1
   \<and> phase (maybeAdvanceGameClock 2 (frameAt dark clock_7900_3) lastLife) = GameOver
   \<and> flashColor (maybeAdvanceGameClock 2 (frameAt dark clock_7900_3) lastLife) = Some fail
   \<and> flashEndsAt (maybeAdvanceGameClock 2 (frameAt dark clock_7900_3) lastLife) = clock_8400_3
   \<and> clock_8400_3 < clock_7900_3 + 500
   \<and> buttonFill (foldl (\<lambda>s inp. processFrame twoButtons inp s)
         (maybeAdvanceGameClock 2 (frameAt dark clock_7900_3) lastLife) [frameAt dark 8400])
       8400 (targetIndex lastLife) = ''rgba(230,67,67,0.45)''
   \<and> buttonFill (foldl (\<lambda>s inp. processFrame twoButtons inp s)
         (maybeAdvanceGameClock 2 (frameAt dark clock_7900_3) lastLife) [frameAt dark 8400])
       clock_8400_3 (targetIndex lastLife) = BTN_COLOR"
proof -
  have p: "phase lastLife = RoundActive" by code_simp
  have d: "roundEndsAt lastLife \<le> nowClock (frameAt dark clock_7900_3)" by code_simp
  have m: "lastActivatedIndex lastLife \<noteq> Some (targetIndex lastLife)" by code_simp
  have h: "hp lastLife = 1" by code_simp
  have v: "roundToDouble (nowEnd (frameAt dark clock_7900_3) + 500) = clock_8400_3"
    "clock_8400_3 < clock_7900_3 + 500" "8400 < clock_8400_3"
    by code_simp+
  show ?thesis
    using last_miss_is_game_over_with_flash_fields_set
        [OF p d m h, of 2 twoButtons "[frameAt dark 8400]" 8400]
      last_miss_is_game_over_with_flash_fields_set
        [OF p d m h, of 2 twoButtons "[frameAt dark 8400]" clock_8400_3]
      p d m h v
    by auto
qed

text \<open>
  C2 as stated fails: after three missed rounds the game is over and the flash fields
  are set, and a frame drawn 32 ms later tints button 0 with the fail colour.
\<close>

theorem flash_is_set_on_last_miss_counterexample:
  "phase (run twoButtons 0 0 threeMisses) = GameOver
   \<and> flashingTarget (run twoButtons 0 0 threeMisses) = Some 0
   \<and> flashingTarget (run twoButtons 0 0 threeMisses) \<noteq> None
   \<and> flashColor (run twoButtons 0 0 threeMisses) = Some fail
   \<and> flashEndsAt (run twoButtons 0 0 threeMisses) = 7500
   \<and> buttonFill (run twoButtons 0 0 (threeMisses @ [frameAt dark 7016])) 7032 0
       = ''rgba(230,67,67,0.45)''
   \<and> buttonFill (run twoButtons 0 0 (threeMisses @ [frameAt dark 7016])) 7032 0 \<noteq> BTN_COLOR"
  by code_simp

section \<open>The button hit test\<close>

lemma frameLastOf_Nil: "frameLastOf [] ra diff cw = None"
  by (simp add: frameLastOf_def)

lemma frameLastOf_snoc:
  "frameLastOf (btns @ [b]) ra diff cw =
     (if ra \<and> jsgt (ratio diff cw b) THRESHOLD then Some (length btns)
      else frameLastOf btns ra diff cw)"
  by (simp add: frameLastOf_def enumerate_append_eq eachButton_def)

lemma frameLastOf_Some:
  "frameLastOf btns ra diff cw = Some k \<longleftrightarrow>
     (ra \<and> k < length btns \<and> jsgt (ratio diff cw (btns ! k)) THRESHOLD
      \<and> (\<forall>j. k < j \<and> j < length btns \<longrightarrow> \<not> jsgt (ratio diff cw (btns ! j)) THRESHOLD))"
proof (induction btns rule: rev_induct)
  case Nil
  then show ?case by (simp add: frameLastOf_Nil)
next
  case (snoc b btns)
  show ?case
  proof (cases "ra \<and> jsgt (ratio diff cw b) THRESHOLD")
    case True
    have "k < length btns \<Longrightarrow>
        \<not> (\<forall>j. k < j \<and> j < Suc (length btns)
              \<longrightarrow> \<not> jsgt (ratio diff cw ((btns @ [b]) ! j)) THRESHOLD)"
      using True by (auto intro: exI [of _ "length btns"])
    then show ?thesis using True
      by (auto simp: frameLastOf_snoc nth_append less_Suc_eq)
  next
    case False
    then show ?thesis using snoc.IH
      by (auto simp: frameLastOf_snoc nth_append less_Suc_eq)
  qed
qed

lemma frameLastOf_None:
  "frameLastOf btns ra diff cw = None \<longleftrightarrow>
     (ra \<longrightarrow> (\<forall>j<length btns. \<not> jsgt (ratio diff cw (btns ! j)) THRESHOLD))"
proof (induction btns rule: rev_induct)
  case Nil
  then show ?case by (simp add: frameLastOf_Nil)
next
  case (snoc b btns)
  then show ?case
    by (auto simp: frameLastOf_snoc nth_append less_Suc_eq)
qed

lemma check_quiet:
  assumes "\<forall>k<length btns. \<not> jsgt (ratio diff cw (btns ! k)) THRESHOLD"
  shows "checkVirtualButtons btns cw diff s = s"
proof -
  have "frameLastOf btns (roundActive s) diff cw = None"
    using assms by (simp add: frameLastOf_None)
  then show ?thesis by (simp add: checkVirtualButtons_def)
qed

lemma check_last:
  assumes "roundActive s" "j < length btns" "jsgt (ratio diff cw (btns ! j)) THRESHOLD"
    and "\<forall>k. j < k \<and> k < length btns \<longrightarrow> \<not> jsgt (ratio diff cw (btns ! k)) THRESHOLD"
  shows "checkVirtualButtons btns cw diff s = s\<lparr>lastActivatedIndex := Some j\<rparr>"
proof -
  have "frameLastOf btns (roundActive s) diff cw = Some j"
    using assms by (simp add: frameLastOf_Some)
  then show ?thesis by (simp add: checkVirtualButtons_def)
qed

lemma tick_lastActivatedIndex:
  assumes "phase s = RoundActive" "width (frame inp) \<noteq> 0"
    and "nowClock inp \<le> nowEnd inp" "\<bar>nowEnd inp\<bar> < 2 ^ 53"
  shows "lastActivatedIndex (processFrame btns inp s) = lastActivatedIndex (afterCheck btns inp s)"
proof -
  have f: "\<not> gameOver s" "roundActive s" using assms(1) by (simp_all add: phase_iff)
  show ?thesis
    by (simp add: processFrame_in_round [OF assms(2) f assms(3) assms(4)] endRound_fields)
qed

text \<open>
  C3. In an active round, when two regions \<open>i < j\<close> both exceed the threshold on the
  same mask and no region declared after \<open>j\<close> does, \<open>checkVirtualButtons\<close> leaves
  \<open>lastActivatedIndex = j\<close>, the later-declared one, and not \<open>i\<close>; so does the whole
  call of \<open>processFrame\<close> whose frame difference is that mask (monotonic clock below
  \<open>2^53\<close> ms).
\<close>

theorem last_declared_active_region_wins:
  assumes "phase s = RoundActive" "i < j" "j < length btns"
    and "jsgt (ratio diff cw (btns ! i)) THRESHOLD"
    and "jsgt (ratio diff cw (btns ! j)) THRESHOLD"
    and "\<forall>k. j < k \<and> k < length btns \<longrightarrow> \<not> jsgt (ratio diff cw (btns ! k)) THRESHOLD"
  shows "lastActivatedIndex (checkVirtualButtons btns cw diff s) = Some j
       \<and> lastActivatedIndex (checkVirtualButtons btns cw diff s) \<noteq> Some i
       \<and> (previousFrame s = Some prv \<and> diff = detectMotion prv (frame inp)
            \<and> cw = width (frame inp) \<and> cw \<noteq> 0 \<and> nowClock inp \<le> nowEnd inp
            \<and> \<bar>nowEnd inp\<bar> < 2 ^ 53
          \<longrightarrow> lastActivatedIndex (processFrame btns inp s) = Some j)"
proof -
  have ra: "roundActive s" using assms(1) by (simp add: phase_iff)
  have c: "checkVirtualButtons btns cw diff s = s\<lparr>lastActivatedIndex := Some j\<rparr>"
    by (rule check_last [OF ra assms(3) assms(5) assms(6)])
  have t: "lastActivatedIndex (processFrame btns inp s) = Some j"
    if "previousFrame s = Some prv" "diff = detectMotion prv (frame inp)"
      "cw = width (frame inp)" "cw \<noteq> 0" "nowClock inp \<le> nowEnd inp"
      "\<bar>nowEnd inp\<bar> < 2 ^ 53"
  proof -
    have "afterCheck btns inp s = checkVirtualButtons btns cw diff s"
      using that by (simp add: afterCheck_def)
    then show ?thesis
      using tick_lastActivatedIndex [OF assms(1), of inp btns] that c by simp
  qed
  show ?thesis using c t assms(2) by simp
qed

theorem last_declared_active_region_wins_witness:
  "phase (run twoButtons 0 0 [frameAt dark 100]) = RoundActive
   \<and> jsgt (ratio (detectMotion dark bothLit) 2 (twoButtons ! 0)) THRESHOLD
   \<and> jsgt (ratio (detectMotion dark bothLit) 2 (twoButtons ! 1)) THRESHOLD
   \<and> lastActivatedIndex (checkVirtualButtons twoButtons 2 (detectMotion dark bothLit)
        (run twoButtons 0 0 [frameAt dark 100])) = Some 1
   \<and> lastActivatedIndex (processFrame twoButtons (frameAt bothLit 200)
        (run twoButtons 0 0 [frameAt dark 100])) = Some 1"
proof -
  let ?s = "run twoButtons 0 0 [frameAt dark 100]"
  have p: "phase ?s = RoundActive" by code_simp
  have len: "length twoButtons = 2" by (simp add: twoButtons_def)
  have l: "(0::nat) < 1" "1 < length twoButtons" by (simp_all add: len)
  have a: "jsgt (ratio (detectMotion dark bothLit) 2 (twoButtons ! 0)) THRESHOLD"
    "jsgt (ratio (detectMotion dark bothLit) 2 (twoButtons ! 1)) THRESHOLD" by code_simp+
  have n: "\<forall>k. 1 < k \<and> k < length twoButtons
      \<longrightarrow> \<not> jsgt (ratio (detectMotion dark bothLit) 2 (twoButtons ! k)) THRESHOLD"
    using len by auto
  have e: "previousFrame ?s = Some dark" "frame (frameAt bothLit 200) = bothLit"
    "width bothLit = 2" "nowClock (frameAt bothLit 200) \<le> nowEnd (frameAt bothLit 200)"
    "\<bar>nowEnd (frameAt bothLit 200)\<bar> < 2 ^ 53"
    by code_simp+
  show ?thesis
    using last_declared_active_region_wins [OF p l a n, of dark "frameAt bothLit 200"] p a e
    by auto
qed


section \<open>The ratio boundary\<close>




section \<open>Persistence of the last activation\<close>

text \<open>
  C10. A frame processed during an active round (monotonic clock below \<open>2^53\<close> ms) on which no region
  exceeds the threshold leaves \<open>lastActivatedIndex\<close> as it was: the button check
  changes nothing, and \<open>endRound\<close>, should the deadline pass on this frame, does not
  clear it either.
\<close>

theorem quiet_tick_keeps_last_activated:
  assumes "phase s = RoundActive" "nowClock inp \<le> nowEnd inp" "\<bar>nowEnd inp\<bar> < 2 ^ 53"
    and "\<forall>prv. previousFrame s = Some prv \<longrightarrow>
           (\<forall>k<length btns.
              \<not> jsgt (ratio (detectMotion prv (frame inp)) (width (frame inp)) (btns ! k)) THRESHOLD)"
  shows "lastActivatedIndex (processFrame btns inp s) = lastActivatedIndex s
       \<and> afterCheck btns inp s = s"
proof -
  have q: "afterCheck btns inp s = s"
  proof (cases "previousFrame s")
    case None
    then show ?thesis by (simp add: afterCheck_def)
  next
    case (Some prv)
    then show ?thesis using assms(4) by (simp add: afterCheck_def check_quiet)
  qed
  show ?thesis
  proof (cases "width (frame inp) = 0")
    case True
    then show ?thesis using q by (simp add: processFrame_def)
  next
    case False
    then show ?thesis
      using tick_lastActivatedIndex [OF assms(1) False assms(2) assms(3), of btns] q
      by simp
  qed
qed

theorem quiet_tick_keeps_last_activated_witness:
  "phase (run twoButtons 0 0 [frameAt dark 100, frameAt leftLit 200]) = RoundActive
   \<and> lastActivatedIndex (run twoButtons 0 0 [frameAt dark 100, frameAt leftLit 200]) = Some 0
   \<and> lastActivatedIndex (processFrame twoButtons (frameAt leftLit 300)
        (run twoButtons 0 0 [frameAt dark 100, frameAt leftLit 200])) = Some 0"
proof -
  let ?s = "run twoButtons 0 0 [frameAt dark 100, frameAt leftLit 200]"
  have p: "phase ?s = RoundActive" by code_simp
  have c: "nowClock (frameAt leftLit 300) \<le> nowEnd (frameAt leftLit 300)"
    by (simp add: frameAt_def)
  have b: "\<bar>nowEnd (frameAt leftLit 300)\<bar> < 2 ^ 53" by (simp add: frameAt_def)
  have len: "length twoButtons = 2" by (simp add: twoButtons_def)
  have pf: "previousFrame ?s = Some leftLit" by code_simp
  have q0: "\<not> jsgt (ratio (detectMotion leftLit (frame (frameAt leftLit 300)))
        (width (frame (frameAt leftLit 300))) (twoButtons ! 0)) THRESHOLD" by code_simp
  have q1: "\<not> jsgt (ratio (detectMotion leftLit (frame (frameAt leftLit 300)))
        (width (frame (frameAt leftLit 300))) (twoButtons ! 1)) THRESHOLD" by code_simp
  have q: "\<forall>prv. previousFrame ?s = Some prv \<longrightarrow>
           (\<forall>k<length twoButtons.
              \<not> jsgt (ratio (detectMotion prv (frame (frameAt leftLit 300)))
                       (width (frame (frameAt leftLit 300))) (twoButtons ! k)) THRESHOLD)"
    using q0 q1 by (auto simp: pf len less_Suc_eq numeral_2_eq_2)
  have l: "lastActivatedIndex ?s = Some 0" by code_simp
  show ?thesis
    using quiet_tick_keeps_last_activated [OF p c b q] p l by auto
qed

section \<open>Hit or miss\<close>

text \<open>
  C4, as the code has it (monotonic clock below \<open>2^53\<close> ms). \<open>hitRecorded\<close> is left
  alone by a frame before the deadline and is computed by the frame at or after the
  deadline as
  \<open>lastActivatedIndex = targetIndex\<close>, with the value \<open>lastActivatedIndex\<close> has after
  that frame's button check. If the last region activated in the round is the target,
  the round ends with a hit, the lives unchanged, the phase \<open>Flash\<close> and the colour
  \<open>success\<close>; otherwise a life is lost and the colour is \<open>fail\<close>.
\<close>

theorem hit_iff_last_activated_is_target:
  assumes "phase s = RoundActive" "width (frame inp) \<noteq> 0"
    and "nowClock inp \<le> nowEnd inp" "\<bar>nowEnd inp\<bar> < 2 ^ 53"
  shows "(nowClock inp < roundEndsAt s \<longrightarrow>
            hitRecorded (processFrame btns inp s) = hitRecorded s)
       \<and> (roundEndsAt s \<le> nowClock inp \<longrightarrow>
            hitRecorded (processFrame btns inp s) =
              (lastActivatedIndex (processFrame btns inp s) = Some (targetIndex s))
            \<and> (lastActivatedIndex (processFrame btns inp s) = Some (targetIndex s) \<longrightarrow>
                 hp (processFrame btns inp s) = hp s
                 \<and> phase (processFrame btns inp s) = Flash
                 \<and> flashColor (processFrame btns inp s) = Some success)
            \<and> (lastActivatedIndex (processFrame btns inp s) \<noteq> Some (targetIndex s) \<longrightarrow>
                 hp (processFrame btns inp s) = hp s - 1
                 \<and> flashColor (processFrame btns inp s) = Some fail))"
proof -
  have f: "\<not> gameOver s" "roundActive s" using assms(1) by (simp_all add: phase_iff)
  note pf = processFrame_in_round [OF assms(2) f assms(3) assms(4), of btns]
  have hr: "hitRecorded (afterCheck btns inp s) = hitRecorded s"
    by (simp add: afterCheck_def checkVirtualButtons_fields split: option.splits)
  show ?thesis using f
    by (simp add: pf hr phase_previousFrame phase_endRound endRound_fields afterCheck_fields)
qed

theorem hit_iff_last_activated_is_target_witness:
  "phase (run twoButtons 0 0 [frameAt dark 100, frameAt leftLit 200]) = RoundActive
   \<and> roundEndsAt (run twoButtons 0 0 [frameAt dark 100, frameAt leftLit 200])
       \<le> nowClock (frameAt leftLit 2000)
   \<and> hitRecorded (processFrame twoButtons (frameAt leftLit 2000)
        (run twoButtons 0 0 [frameAt dark 100, frameAt leftLit 200]))
   \<and> hp (processFrame twoButtons (frameAt leftLit 2000)
        (run twoButtons 0 0 [frameAt dark 100, frameAt leftLit 200])) = 3
   \<and> phase (processFrame twoButtons (frameAt leftLit 2000)
        (run twoButtons 0 0 [frameAt dark 100, frameAt leftLit 200])) = Flash
   \<and> flashColor (processFrame twoButtons (frameAt leftLit 2000)
        (run twoButtons 0 0 [frameAt dark 100, frameAt leftLit 200])) = Some success"
proof -
  let ?s = "run twoButtons 0 0 [frameAt dark 100, frameAt leftLit 200]"
  have p: "phase ?s = RoundActive" by code_simp
  have w: "width (frame (frameAt leftLit 2000)) \<noteq> 0" by code_simp
  have c: "nowClock (frameAt leftLit 2000) \<le> nowEnd (frameAt leftLit 2000)"
    by (simp add: frameAt_def)
  have b: "\<bar>nowEnd (frameAt leftLit 2000)\<bar> < 2 ^ 53" by (simp add: frameAt_def)
  have d: "roundEndsAt ?s \<le> nowClock (frameAt leftLit 2000)" by code_simp
  have l: "lastActivatedIndex (processFrame twoButtons (frameAt leftLit 2000) ?s)
      = Some (targetIndex ?s)" by code_simp
  have h: "hp ?s = 3" by code_simp
  show ?thesis
    using hit_iff_last_activated_is_target [OF p w c b, of twoButtons] p d l h by auto
qed

text \<open>
  C4 as stated fails: the player activates the target (region 0) at 200 ms, well
  before the deadline, then activates region 1; the round ends with a miss, a life
  lost and the fail colour.
\<close>

theorem target_touched_then_other_region_counterexample:
  "phase (run twoButtons 0 0 [frameAt dark 100, frameAt leftLit 200]) = RoundActive
   \<and> lastActivatedIndex (run twoButtons 0 0 [frameAt dark 100, frameAt leftLit 200])
       = Some (targetIndex (run twoButtons 0 0 [frameAt dark 100, frameAt leftLit 200]))
   \<and> (200 :: rat) < roundEndsAt (run twoButtons 0 0 [frameAt dark 100, frameAt leftLit 200])
   \<and> touchThenLeave = [frameAt dark 100, frameAt leftLit 200] @ [frameAt bothLit 300, frameAt bothLit 2000]
   \<and> \<not> hitRecorded (run twoButtons 0 0 touchThenLeave)
   \<and> hp (run twoButtons 0 0 touchThenLeave) = 2
   \<and> phase (run twoButtons 0 0 touchThenLeave) = Flash
   \<and> flashColor (run twoButtons 0 0 touchThenLeave) = Some fail"
  by code_simp

section \<open>The frame differ\<close>

lemma length_detectLoop: "length (detectLoop p c i d) = length d"
proof (induction p c i d rule: detectLoop.induct)
  case (1 prevd currd i diff)
  show ?case
  proof (cases "i < length currd")
    case True
    then show ?thesis using 1 by (subst detectLoop.simps) (simp add: Let_def)
  next
    case False
    then show ?thesis by (subst detectLoop.simps) simp
  qed
qed

lemma length_detectMotion: "length (detectMotion prv cur) = length (data cur)"
  by (simp add: detectMotion_def length_detectLoop)

lemma detectLoop_nth:
  "4 dvd i \<Longrightarrow> length d = length c \<Longrightarrow> j < length c \<Longrightarrow>
   detectLoop p c i d ! j =
     (if i \<le> j then (if j mod 4 = 3 then 255 else motion (delta p c (j - j mod 4))) else d ! j)"
proof (induction p c i d rule: detectLoop.induct)
  case (1 prevd currd i diff)
  show ?case
  proof (cases "i < length currd")
    case False
    then show ?thesis using "1.prems" by (subst detectLoop.simps) simp
  next
    case True
    define m where "m = motion (delta prevd currd i)"
    define diff' where "diff' = diff[i + 2 := m, i + 1 := m, i := m, i + 3 := 255]"
    have unf: "detectLoop prevd currd i diff = detectLoop prevd currd (i + 4) diff'"
      using True by (subst detectLoop.simps) (simp add: Let_def m_def diff'_def)
    have IH: "detectLoop prevd currd (i + 4) diff' ! j =
        (if i + 4 \<le> j
         then (if j mod 4 = 3 then 255 else motion (delta prevd currd (j - j mod 4)))
         else diff' ! j)"
      using "1.IH" [OF True refl] "1.prems"
      by (simp add: diff'_def m_def)
    have len: "j < length diff" using "1.prems" by simp
    show ?thesis
    proof (cases "i + 4 \<le> j")
      case True
      then show ?thesis using IH unf by simp
    next
      case near: False
      show ?thesis
      proof (cases "i \<le> j")
        case False
        then show ?thesis using IH unf near by (simp add: diff'_def)
      next
        case True
        then consider "j = i" | "j = i + 1" | "j = i + 2" | "j = i + 3"
          using near by arith
        then show ?thesis
        proof cases
          case 1
          then show ?thesis using IH unf near len "1.prems"(1)
            by (simp add: diff'_def m_def)
        next
          case 2
          have "(i + 1) mod 4 = 1" using "1.prems"(1) by presburger
          then show ?thesis using IH unf near len 2
            by (simp add: diff'_def m_def)
        next
          case 3
          have "(i + 2) mod 4 = 2" using "1.prems"(1) by presburger
          then show ?thesis using IH unf near len 3
            by (simp add: diff'_def m_def)
        next
          case 4
          have "(i + 3) mod 4 = 3" using "1.prems"(1) by presburger
          then show ?thesis using IH unf near len 4
            by (simp add: diff'_def m_def)
        qed
      qed
    qed
  qed
qed

lemma detectMotion_nth:
  assumes "j < length (data cur)"
  shows "detectMotion prv cur ! j =
     (if j mod 4 = 3 then 255 else motion (delta (data prv) (data cur) (j - j mod 4)))"
  using detectLoop_nth [of 0 "replicate (length (data cur)) 0" "data cur" j "data prv"] assms
  by (simp add: detectMotion_def)

lemma delta_in_range:
  assumes "i + 2 < length prevd" "i + 2 < length currd"
  shows "delta prevd currd i =
     Some (\<bar>uint (currd ! i) - uint (prevd ! i)\<bar>
           + \<bar>uint (currd ! (i + 1)) - uint (prevd ! (i + 1))\<bar>
           + \<bar>uint (currd ! (i + 2)) - uint (prevd ! (i + 2))\<bar>)"
  using assms by (simp add: delta_def chan_def absDiff_def plus_num_def)

lemma delta_out_of_range:
  assumes "length prevd \<le> i + 2"
  shows "delta prevd currd i = None"
  using assms by (simp add: delta_def chan_def absDiff_def plus_num_def split: option.splits)

lemma motionAt_pixel:
  "motionAt d (of_nat n) \<longleftrightarrow> n < length d \<and> 128 < uint (d ! n)"
  by (simp add: motionAt_def)

text \<open>
  C7. For two frames of the same size and every pixel \<open>p\<close> of them, \<open>detectMotion\<close>
  writes 255 into the three colour channels of \<open>p\<close> when the summed channel delta is
  strictly greater than 50 and 0 otherwise (and 255 into alpha), so the button check's
  test \<open>diff[di] > 128\<close> holds at \<open>p\<close> exactly when the delta exceeds 50: a delta of 50
  is no motion, a delta of 51 is motion.
\<close>

theorem motion_iff_summed_delta_above_50:
  assumes "wellFormed prv" "wellFormed cur"
    and "width prv = width cur" "height prv = height cur"
    and "p < width cur * height cur"
  shows "detectMotion prv cur ! (4 * p) = (if 50 < summedDelta prv cur p then 255 else 0)
       \<and> detectMotion prv cur ! (4 * p + 1) = detectMotion prv cur ! (4 * p)
       \<and> detectMotion prv cur ! (4 * p + 2) = detectMotion prv cur ! (4 * p)
       \<and> detectMotion prv cur ! (4 * p + 3) = 255
       \<and> motionAt (detectMotion prv cur) (of_nat (4 * p)) = (50 < summedDelta prv cur p)"
proof -
  have lc: "length (data cur) = 4 * (width cur * height cur)"
    using assms(2) by (simp add: wellFormed_def)
  have lp: "length (data prv) = 4 * (width cur * height cur)"
    using assms(1,3,4) by (simp add: wellFormed_def)
  have b: "4 * p + 3 < length (data cur)" "4 * p + 3 < length (data prv)"
    using assms(5) lc lp by simp_all
  have dl: "delta (data prv) (data cur) (4 * p) = Some (summedDelta prv cur p)"
    using b by (simp add: delta_in_range summedDelta_def)
  have m: "(4 * p) mod 4 = 0" "(4 * p + 1) mod 4 = 1" "(4 * p + 2) mod 4 = 2"
    "(4 * p + 3) mod 4 = 3" by presburger+
  have n0: "detectMotion prv cur ! (4 * p) = (if 50 < summedDelta prv cur p then 255 else 0)"
    using b m(1) by (simp add: detectMotion_nth dl motion_def)
  have n1: "detectMotion prv cur ! (4 * p + 1) = (if 50 < summedDelta prv cur p then 255 else 0)"
    using b m(2) by (simp add: detectMotion_nth dl motion_def)
  have n2: "detectMotion prv cur ! (4 * p + 2) = (if 50 < summedDelta prv cur p then 255 else 0)"
    using b m(3) by (simp add: detectMotion_nth dl motion_def)
  have n3: "detectMotion prv cur ! (4 * p + 3) = 255"
    using b m(4) by (simp add: detectMotion_nth)
  have at: "motionAt (detectMotion prv cur) (of_nat (4 * p)) = (50 < summedDelta prv cur p)"
    using b by (simp only: motionAt_pixel n0 length_detectMotion) simp
  show ?thesis using n0 n1 n2 n3 at by simp
qed

theorem motion_iff_summed_delta_above_50_witness:
  "wellFormed dark \<and> wellFormed nudged
   \<and> summedDelta dark nudged 0 = 50
   \<and> \<not> motionAt (detectMotion dark nudged) (of_nat (4 * 0))
   \<and> detectMotion dark nudged ! (4 * 0) = 0
   \<and> summedDelta dark nudged 1 = 51
   \<and> motionAt (detectMotion dark nudged) (of_nat (4 * 1))
   \<and> detectMotion dark nudged ! (4 * 1) = 255"
proof -
  have wf: "wellFormed dark" "wellFormed nudged" by code_simp+
  have d: "width dark = width nudged" "height dark = height nudged"
    "0 < width nudged * height nudged" "1 < width nudged * height nudged" by code_simp+
  have s: "summedDelta dark nudged 0 = 50" "summedDelta dark nudged 1 = 51" by code_simp+
  show ?thesis
    using motion_iff_summed_delta_above_50 [OF wf d(1) d(2) d(3)]
      motion_iff_summed_delta_above_50 [OF wf d(1) d(2) d(4)] wf s
    by auto
qed

text \<open>
  C9, as the code has it. \<open>detectMotion\<close> compares no dimensions and has no failing
  path: for every pair of frames, of equal size or not, it returns a mask as long as
  the current frame's buffer, and a pixel whose colour channels lie beyond the previous
  frame's buffer (its delta is \<open>NaN\<close>) is marked no motion.
\<close>

theorem differ_never_checks_dimensions:
  "frameDiffer prv cur \<noteq> Inl DimensionMismatch
   \<and> frameDiffer prv cur = Inr (detectMotion prv cur)
   \<and> length (detectMotion prv cur) = length (data cur)
   \<and> (4 * p < length (data cur) \<and> length (data prv) \<le> 4 * p + 2
        \<longrightarrow> detectMotion prv cur ! (4 * p) = 0
            \<and> \<not> motionAt (detectMotion prv cur) (of_nat (4 * p)))"
proof -
  have z: "detectMotion prv cur ! (4 * p) = 0"
    if "4 * p < length (data cur)" "length (data prv) \<le> 4 * p + 2"
  proof -
    have "(4 * p) mod 4 = 0" by presburger
    then show ?thesis using that
      by (simp add: detectMotion_nth delta_out_of_range motion_def)
  qed
  have q: "\<not> motionAt (detectMotion prv cur) (of_nat (4 * p))"
    if "4 * p < length (data cur)" "length (data prv) \<le> 4 * p + 2"
    using z [OF that] by (simp only: motionAt_pixel) simp
  have d: "frameDiffer prv cur = Inr (detectMotion prv cur)"
    by (simp add: frameDiffer_def)
  have ne: "frameDiffer prv cur \<noteq> Inl DimensionMismatch"
    by (simp add: frameDiffer_def)
  have quiet: "4 * p < length (data cur) \<and> length (data prv) \<le> 4 * p + 2
        \<longrightarrow> detectMotion prv cur ! (4 * p) = 0
            \<and> \<not> motionAt (detectMotion prv cur) (of_nat (4 * p))"
    using z q by blast
  from ne d length_detectMotion [of prv cur] quiet show ?thesis
    by (intro conjI)
qed

theorem differ_never_checks_dimensions_witness:
  "4 * 1 < length (data dark) \<and> length (data onePixel) \<le> 4 * 1 + 2
   \<and> width onePixel \<noteq> width dark
   \<and> frameDiffer onePixel dark \<noteq> Inl DimensionMismatch
   \<and> length (detectMotion onePixel dark) = 8
   \<and> detectMotion onePixel dark ! (4 * 1) = 0"
proof -
  have h: "4 * 1 < length (data dark)" "length (data onePixel) \<le> 4 * 1 + 2"
    "width onePixel \<noteq> width dark" "length (data dark) = 8" by code_simp+
  show ?thesis
    using differ_never_checks_dimensions [of onePixel dark 1] h by auto
qed

text \<open>
  C9 as stated fails: for a previous frame of one pixel and a current frame of two,
  the differ returns a mask of two pixels and no error.
\<close>

theorem differ_on_unequal_frames_counterexample:
  "width onePixel \<noteq> width dark
   \<and> frameDiffer onePixel dark = Inr [255, 255, 255, 255, 0, 0, 0, 255]
   \<and> frameDiffer onePixel dark \<noteq> Inl DimensionMismatch"
  by code_simp

section \<open>Counting inside the rectangle\<close>




lemma insideCount_card:
  "insideCount diff cw x0 y0 w h =
     card {(kr, kc). kr < h \<and> kc < w \<and> maskMotion diff cw (x0 + kc) (y0 + kr)}"
proof -
  have d: "distinct (filter (\<lambda>(kr, kc). maskMotion diff cw (x0 + kc) (y0 + kr))
      (List.product [0..<h] [0..<w]))"
    by (simp add: distinct_product)
  have "set (filter (\<lambda>(kr, kc). maskMotion diff cw (x0 + kc) (y0 + kr))
      (List.product [0..<h] [0..<w]))
      = {(kr, kc). kr < h \<and> kc < w \<and> maskMotion diff cw (x0 + kc) (y0 + kr)}"
    by auto
  then show ?thesis
    unfolding insideCount_def using distinct_card [OF d] by simp
qed




end
